theory Spec2Isabelle
  imports Main
begin

section \<open>The shared store and the persistent queue\<close>

text \<open>
  The service keeps all of its cross-request state in Redis and hands admitted work to a
  Bull queue. Both are collaborators outside the repository; they are modelled by their
  documented command semantics. Time is the millisecond clock of \<open>Date.now()\<close>, an
  \<open>int\<close>; a command is served by the store at the instant it is issued.

  The only values this program ever writes are decimal integers (\<open>INCR\<close> counters and
  \<open>Date.now()\<close>), the string \<open>locked\<close> and the boolean \<open>true\<close> (stored as the string
  \<open>true\<close>); the value type has exactly these three shapes. Numbers are unbounded
  integers: the counters and timestamps of this program stay far below the 53 bits of a
  JavaScript number and the 64 bits of a Redis counter.
\<close>

datatype val = VInt int | VLocked | VTrue

type_synonym entry = "val \<times> int option"
  \<comment> \<open>a value and the absolute time (ms) at which the key expires, if it has a TTL\<close>

datatype job = Job (job_user_id: string) (job_delay: "int option")
  \<comment> \<open>\<open>taskQueue.add({ user_id }, { delay })\<close>\<close>

datatype cmd =
    GET string
  | INCR string
  | EXPIRE string int
  | SET string val
  | SET_EX string val int
  | SET_NX_EX string val int
  | DEL string
  | ADD job

datatype err = StoreUnavailable | NotAnInteger

record world =
  kv :: "string \<Rightarrow> entry option"
  queue :: "job list"
  faults :: "bool list"
  log :: "(cmd \<times> bool) list"

text \<open>
  \<open>faults\<close> is the script of the environment: its \<open>n\<close>-th element tells whether the
  \<open>n\<close>-th command issued from now on is rejected (the store is unavailable); once the
  script is used up every command is served. \<open>log\<close> records every command issued,
  with \<open>True\<close> when the store served it and \<open>False\<close> when it was rejected.
\<close>

definition world0 :: world where
  "world0 = \<lparr>kv = (\<lambda>k. None), queue = [], faults = [], log = []\<rparr>"

definition expired :: "int option \<Rightarrow> int \<Rightarrow> bool" where
  \<comment> \<open>a key with a TTL is gone once the clock is past its expiry time\<close>
  "expired e t = (case e of None \<Rightarrow> False | Some x \<Rightarrow> x < t)"

definition live :: "(string \<Rightarrow> entry option) \<Rightarrow> int \<Rightarrow> string \<Rightarrow> entry option" where
  "live m t k = (case m k of None \<Rightarrow> None
                 | Some (v, e) \<Rightarrow> if expired e t then None else Some (v, e))"

definition served :: "world \<Rightarrow> bool" where
  \<comment> \<open>whether the store serves the next command\<close>
  "served w = (case faults w of [] \<Rightarrow> True | f # fs \<Rightarrow> \<not> f)"

definition issue :: "cmd \<Rightarrow> world \<Rightarrow> world" where
  \<comment> \<open>a command leaves the client: it is logged and uses up one element of the script\<close>
  "issue c w = w\<lparr>faults := tl (faults w), log := log w @ [(c, served w)]\<rparr>"

type_synonym 'a io = "world \<Rightarrow> (err + 'a) \<times> world"

definition return :: "'a \<Rightarrow> 'a io" where
  "return x w = (Inr x, w)"

definition andThen :: "'a io \<Rightarrow> ('a \<Rightarrow> 'b io) \<Rightarrow> 'b io" where
  "andThen m f w = (case m w of (Inl e, w') \<Rightarrow> (Inl e, w') | (Inr x, w') \<Rightarrow> f x w')"

definition redis_get :: "string \<Rightarrow> int \<Rightarrow> val option io" where
  "redis_get k t w =
     (if served w then (Inr (map_option fst (live (kv w) t k)), issue (GET k) w)
      else (Inl StoreUnavailable, issue (GET k) w))"

definition redis_incr :: "string \<Rightarrow> int \<Rightarrow> int io" where
  \<comment> \<open>a missing key counts from 0; the TTL of an existing key is kept\<close>
  "redis_incr k t w =
     (if served w then
        (case live (kv w) t k of
           None \<Rightarrow> (Inr 1, (issue (INCR k) w)\<lparr>kv := (kv w)(k \<mapsto> (VInt 1, None))\<rparr>)
         | Some (VInt n, e) \<Rightarrow>
             (Inr (n + 1), (issue (INCR k) w)\<lparr>kv := (kv w)(k \<mapsto> (VInt (n + 1), e))\<rparr>)
         | Some (_, e) \<Rightarrow> (Inl NotAnInteger, issue (INCR k) w))
      else (Inl StoreUnavailable, issue (INCR k) w))"

definition redis_expire :: "string \<Rightarrow> int \<Rightarrow> int \<Rightarrow> int io" where
  "redis_expire k secs t w =
     (if served w then
        (case live (kv w) t k of
           None \<Rightarrow> (Inr 0, issue (EXPIRE k secs) w)
         | Some (v, e) \<Rightarrow>
             (Inr 1, (issue (EXPIRE k secs) w)\<lparr>kv := (kv w)(k \<mapsto> (v, Some (t + 1000 * secs)))\<rparr>))
      else (Inl StoreUnavailable, issue (EXPIRE k secs) w))"

definition redis_set :: "string \<Rightarrow> val \<Rightarrow> int \<Rightarrow> unit io" where
  \<comment> \<open>a plain \<open>SET\<close> discards any TTL the key had\<close>
  "redis_set k v t w =
     (if served w then (Inr (), (issue (SET k v) w)\<lparr>kv := (kv w)(k \<mapsto> (v, None))\<rparr>)
      else (Inl StoreUnavailable, issue (SET k v) w))"

definition redis_set_ex :: "string \<Rightarrow> val \<Rightarrow> int \<Rightarrow> int \<Rightarrow> unit io" where
  "redis_set_ex k v secs t w =
     (if served w
      then (Inr (), (issue (SET_EX k v secs) w)\<lparr>kv := (kv w)(k \<mapsto> (v, Some (t + 1000 * secs)))\<rparr>)
      else (Inl StoreUnavailable, issue (SET_EX k v secs) w))"

definition redis_set_nx_ex :: "string \<Rightarrow> val \<Rightarrow> int \<Rightarrow> int \<Rightarrow> bool io" where
  \<comment> \<open>the reply is \<open>OK\<close> (\<open>True\<close>) when the key was created and nil when it exists\<close>
  "redis_set_nx_ex k v secs t w =
     (if served w then
        (case live (kv w) t k of
           None \<Rightarrow>
             (Inr True, (issue (SET_NX_EX k v secs) w)\<lparr>kv := (kv w)(k \<mapsto> (v, Some (t + 1000 * secs)))\<rparr>)
         | Some x \<Rightarrow> (Inr False, issue (SET_NX_EX k v secs) w))
      else (Inl StoreUnavailable, issue (SET_NX_EX k v secs) w))"

definition redis_del :: "string \<Rightarrow> int \<Rightarrow> int io" where
  "redis_del k t w =
     (if served w
      then (Inr (case live (kv w) t k of None \<Rightarrow> 0 | Some x \<Rightarrow> 1),
            (issue (DEL k) w)\<lparr>kv := (kv w)(k := None)\<rparr>)
      else (Inl StoreUnavailable, issue (DEL k) w))"

definition queue_add :: "job \<Rightarrow> unit io" where
  "queue_add j w =
     (if served w then (Inr (), (issue (ADD j) w)\<lparr>queue := queue w @ [j]\<rparr>)
      else (Inl StoreUnavailable, issue (ADD j) w))"

section \<open>JavaScript values\<close>

function show_nat :: "nat \<Rightarrow> string" where
  "show_nat n = (if n < 10 then [''0123456789'' ! n]
                 else show_nat (n div 10) @ [''0123456789'' ! (n mod 10)])"
  by pat_completeness auto
termination
  by (relation "measure id") auto

declare show_nat.simps [simp del]

definition show_int :: "int \<Rightarrow> string" where
  \<comment> \<open>the decimal text of an integer, as a template literal renders it\<close>
  "show_int i = (if i < 0 then CHR ''-'' # show_nat (nat (- i)) else show_nat (nat i))"

fun to_string :: "val \<Rightarrow> string" where
  "to_string (VInt n) = show_int n"
| "to_string VLocked = ''locked''"
| "to_string VTrue = ''true''"

definition truthy :: "val option \<Rightarrow> bool" where
  \<comment> \<open>a reply is nil or a string; the empty string and nil are falsy\<close>
  "truthy r = (case r of None \<Rightarrow> False | Some v \<Rightarrow> to_string v \<noteq> [])"

fun to_number :: "val \<Rightarrow> int option" where
  \<comment> \<open>\<open>None\<close> is NaN\<close>
  "to_number (VInt n) = Some n"
| "to_number VLocked = None"
| "to_number VTrue = None"

definition js_rem :: "int \<Rightarrow> int \<Rightarrow> int" where
  \<comment> \<open>the \<open>%\<close> operator: the result has the sign of the dividend\<close>
  "js_rem a b = (if a < 0 then - ((- a) mod \<bar>b\<bar>) else a mod \<bar>b\<bar>)"

section \<open>Rate admission: the \<open>POST /task\<close> handler\<close>

text \<open>
  The handler reads the clock once, into \<open>currentTime\<close>, and then awaits its commands one
  after the other; they are served at that same instant. Calls are run one at a time.
\<close>

datatype response = Response (status: nat) (body: string)

definition tasksPerSecond :: int where
  "tasksPerSecond = 1"

definition tasksPerMinute :: int where
  "tasksPerMinute = 20"

definition rateLimitKey :: "string \<Rightarrow> int \<Rightarrow> string" where
  "rateLimitKey user_id currentMinute = ''rateLimit:'' @ user_id @ '':'' @ show_int currentMinute"

definition rateLimitExceededKey :: "string \<Rightarrow> string" where
  "rateLimitExceededKey user_id = ''rateLimitExceeded:'' @ user_id"

definition delayed :: response where
  "delayed = Response 429 ''Rate limit exceeded, task delayed to next minute.''"

definition queued :: response where
  "queued = Response 200 ''Task queued successfully''"

definition try_catch :: "response io \<Rightarrow> world \<Rightarrow> response \<times> world" where
  "try_catch m w = (case m w of
                      (Inl e, w') \<Rightarrow> (Response 500 ''Internal server error'', w')
                    | (Inr r, w') \<Rightarrow> (r, w'))"

definition admit :: "string \<Rightarrow> int \<Rightarrow> response io" where
  "admit user_id currentTime =
     (let currentMinute = currentTime div 60000;
          redisKey = rateLimitKey user_id currentMinute
      in andThen (redis_get (rateLimitExceededKey user_id) currentTime) (\<lambda>rateLimitExceeded.
           if truthy rateLimitExceeded then
             (let delayTime = 60000 - js_rem currentTime 60000
              in andThen (queue_add (Job user_id (Some delayTime))) (\<lambda>_. return delayed))
           else
             andThen (redis_incr redisKey currentTime) (\<lambda>taskCount.
             andThen (if taskCount = 1
                      then andThen (redis_expire redisKey 60 currentTime) (\<lambda>_. return ())
                      else return ()) (\<lambda>_.
               if taskCount > tasksPerMinute then
                 andThen (redis_set_ex (rateLimitExceededKey user_id) VTrue 60 currentTime) (\<lambda>_.
                   (let delayTime = 60000 - js_rem currentTime 60000
                    in andThen (queue_add (Job user_id (Some delayTime))) (\<lambda>_. return delayed)))
               else
                 andThen (queue_add (Job user_id None)) (\<lambda>_. return queued)))))"

definition post_task :: "string option \<Rightarrow> int \<Rightarrow> world \<Rightarrow> response \<times> world" where
  \<comment> \<open>the request body's \<open>user_id\<close> is absent (\<open>None\<close>) or a string\<close>
  "post_task user_id currentTime w =
     (case user_id of
        None \<Rightarrow> (Response 400 ''User ID is required'', w)
      | Some uid \<Rightarrow>
          if uid = [] then (Response 400 ''User ID is required'', w)
          else try_catch (admit uid currentTime) w)"

fun submit_all :: "(string option \<times> int) list \<Rightarrow> world \<Rightarrow> response list \<times> world" where
  "submit_all [] w = ([], w)"
| "submit_all ((user_id, t) # cs) w =
     (case post_task user_id t w of
        (r, w') \<Rightarrow> (case submit_all cs w' of (rs, w'') \<Rightarrow> (r # rs, w'')))"

text \<open>
  The following functions only read a world or a run; they name the quantities the
  rate-limit properties speak about: the value of the window counter of a key, the
  responses given to the calls made for a key, and how many of them were 200.
\<close>

definition window_counter :: "world \<Rightarrow> string \<Rightarrow> int \<Rightarrow> int" where
  "window_counter w u m = (case kv w (rateLimitKey u m) of Some (VInt c, e) \<Rightarrow> c | _ \<Rightarrow> 0)"



section \<open>The execution lock\<close>

definition lockKey :: "string \<Rightarrow> string" where
  "lockKey user_id = ''lock:'' @ user_id"

definition acquireLock :: "string \<Rightarrow> int \<Rightarrow> bool io" where
  \<comment> \<open>\<open>redis.set(lockKey, "locked", "NX", "EX", 5)\<close>; true when the reply is \<open>OK\<close>\<close>
  "acquireLock user_id t = redis_set_nx_ex (lockKey user_id) VLocked 5 t"

definition releaseLock :: "string \<Rightarrow> int \<Rightarrow> unit io" where
  "releaseLock user_id t = andThen (redis_del (lockKey user_id) t) (\<lambda>_. return ())"

datatype lock_op = Acquire string | Release string

fun lock_call :: "lock_op \<Rightarrow> int \<Rightarrow> world \<Rightarrow> bool \<times> world" where
  \<comment> \<open>one call of \<open>acquireLock\<close> or \<open>releaseLock\<close>; the flag tells whether the caller
      obtained the lock\<close>
  "lock_call (Acquire user_id) t w = (case acquireLock user_id t w of (x, w') \<Rightarrow> (x = Inr True, w'))"
| "lock_call (Release user_id) t w = (case releaseLock user_id t w of (x, w') \<Rightarrow> (False, w'))"

fun lock_calls :: "(lock_op \<times> int) list \<Rightarrow> world \<Rightarrow> bool list \<times> world" where
  "lock_calls [] w = ([], w)"
| "lock_calls ((c, t) # cs) w =
     (case lock_call c t w of
        (x, w') \<Rightarrow> (case lock_calls cs w' of (xs, w'') \<Rightarrow> (x # xs, w'')))"

section \<open>The scheduler: \<open>taskQueue.process\<close>\<close>

text \<open>
  The processor of a queue item is a coroutine: it runs until its next \<open>await\<close> and is
  resumed when the awaited promise settles. A replica is therefore modelled by the point at
  which its processor is suspended, and the system by one step function that resumes a
  given replica at a given time. The schedule (which replica moves when, which item the
  queue delivers, whether the task resolves or rejects) is the environment's choice and
  is an explicit input.
\<close>

definition lastExecutionKey :: "string \<Rightarrow> string" where
  "lastExecutionKey user_id = ''lastExecution:'' @ user_id"

datatype stage =
    Idle
  | LockPending string int
  | Spacing string
  | Sleeping string int
  | Executing string
  | Recorded string

text \<open>
  \<open>LockPending u wake\<close>: in \<open>sleep(100)\<close> of the retry loop, resumable from \<open>wake\<close>;
  \<open>Spacing u\<close>: the lock was obtained and the timestamp is read next;
  \<open>Sleeping u wake\<close>: in \<open>sleep(delay)\<close>, resumable from \<open>wake\<close>;
  \<open>Executing u\<close>: \<open>task(user_id)\<close> is running;
  \<open>Recorded u\<close>: the new timestamp is written and the lock is released next.
\<close>

datatype job_result = Completed | Failed
  \<comment> \<open>what the queue is told: the processor's promise resolved or rejected\<close>

datatype event = Deliver string | Resume | TaskResolved | TaskRejected

record sys =
  store :: world
  stage :: "nat \<Rightarrow> stage"
  invocations :: "(string \<times> int) list"
  finished :: "(string \<times> job_result) list"

definition sys0 :: sys where
  "sys0 = \<lparr>store = world0, stage = (\<lambda>r. Idle), invocations = [], finished = []\<rparr>"

definition sleep :: "int \<Rightarrow> int \<Rightarrow> int" where
  \<comment> \<open>\<open>setTimeout(resolve, ms)\<close> armed at time \<open>now\<close>: the time from which the promise can
      resolve. The timer takes a delay from 1 to 2147483647 ms; any other delay is replaced
      by 1 ms.\<close>
  "sleep ms now = now + (if 1 \<le> ms \<and> ms \<le> 2147483647 then ms else 1)"

definition caught :: "nat \<Rightarrow> string \<Rightarrow> sys \<Rightarrow> sys" where
  \<comment> \<open>the \<open>catch\<close> block logs the error and returns: the processor's promise resolves\<close>
  "caught r user_id s =
     s\<lparr>stage := (stage s)(r := Idle), finished := finished s @ [(user_id, Completed)]\<rparr>"

definition try_lock :: "nat \<Rightarrow> string \<Rightarrow> int \<Rightarrow> sys \<Rightarrow> sys" where
  "try_lock r user_id t s =
     (case acquireLock user_id t (store s) of
        (Inl e, w') \<Rightarrow> caught r user_id (s\<lparr>store := w'\<rparr>)
      | (Inr lockAcquired, w') \<Rightarrow>
          if lockAcquired then s\<lparr>store := w', stage := (stage s)(r := Spacing user_id)\<rparr>
          else s\<lparr>store := w', stage := (stage s)(r := LockPending user_id (sleep 100 t))\<rparr>)"

definition spacing_delay :: "val option \<Rightarrow> int \<Rightarrow> int option" where
  \<comment> \<open>the argument of \<open>sleep\<close>, or \<open>None\<close> when \<open>sleep\<close> is not called; a NaN delay is
      not greater than 0\<close>
  "spacing_delay lastExecutionTime now =
     (case lastExecutionTime of
        None \<Rightarrow> None
      | Some v \<Rightarrow>
          if truthy (Some v) then
            (case to_number v of
               None \<Rightarrow> None
             | Some ts \<Rightarrow>
                 (let elapsedTime = now - ts;
                      delay = max (1000 - elapsedTime) 0
                  in if delay > 0 then Some delay else None))
          else None)"

definition invoke :: "nat \<Rightarrow> string \<Rightarrow> int \<Rightarrow> sys \<Rightarrow> sys" where
  \<comment> \<open>\<open>task(user_id)\<close> is called at time \<open>t\<close>\<close>
  "invoke r user_id t s =
     s\<lparr>stage := (stage s)(r := Executing user_id), invocations := invocations s @ [(user_id, t)]\<rparr>"

definition spacing :: "nat \<Rightarrow> string \<Rightarrow> int \<Rightarrow> sys \<Rightarrow> sys" where
  "spacing r user_id now s =
     (case redis_get (lastExecutionKey user_id) now (store s) of
        (Inl e, w') \<Rightarrow> caught r user_id (s\<lparr>store := w'\<rparr>)
      | (Inr lastExecutionTime, w') \<Rightarrow>
          (case spacing_delay lastExecutionTime now of
             Some delay \<Rightarrow>
               s\<lparr>store := w', stage := (stage s)(r := Sleeping user_id (sleep delay now))\<rparr>
           | None \<Rightarrow> invoke r user_id now (s\<lparr>store := w'\<rparr>)))"

definition record_execution :: "nat \<Rightarrow> string \<Rightarrow> int \<Rightarrow> sys \<Rightarrow> sys" where
  \<comment> \<open>\<open>redis.set(lastExecutionKey, Date.now())\<close> once the task has resolved\<close>
  "record_execution r user_id t s =
     (case redis_set (lastExecutionKey user_id) (VInt t) t (store s) of
        (Inl e, w') \<Rightarrow> caught r user_id (s\<lparr>store := w'\<rparr>)
      | (Inr x, w') \<Rightarrow> s\<lparr>store := w', stage := (stage s)(r := Recorded user_id)\<rparr>)"

definition release :: "nat \<Rightarrow> string \<Rightarrow> int \<Rightarrow> sys \<Rightarrow> sys" where
  "release r user_id t s =
     (case releaseLock user_id t (store s) of
        (Inl e, w') \<Rightarrow> caught r user_id (s\<lparr>store := w'\<rparr>)
      | (Inr x, w') \<Rightarrow>
          s\<lparr>store := w', stage := (stage s)(r := Idle),
            finished := finished s @ [(user_id, Completed)]\<rparr>)"

fun react :: "stage \<Rightarrow> event \<Rightarrow> nat \<Rightarrow> int \<Rightarrow> sys \<Rightarrow> sys" where
  "react Idle (Deliver user_id) r t s = try_lock r user_id t s"
| "react (LockPending user_id wake) Resume r t s = (if wake \<le> t then try_lock r user_id t s else s)"
| "react (Spacing user_id) Resume r t s = spacing r user_id t s"
| "react (Sleeping user_id wake) Resume r t s = (if wake \<le> t then invoke r user_id t s else s)"
| "react (Executing user_id) TaskResolved r t s = record_execution r user_id t s"
| "react (Executing user_id) TaskRejected r t s = caught r user_id s"
| "react (Recorded user_id) Resume r t s = release r user_id t s"
| "react st ev r t s = s"

definition step :: "int \<Rightarrow> nat \<Rightarrow> event \<Rightarrow> sys \<Rightarrow> sys" where
  \<comment> \<open>replica \<open>r\<close> is resumed at time \<open>t\<close>; an event it is not waiting for changes nothing\<close>
  "step t r ev s = react (stage s r) ev r t s"

fun run_schedule :: "(int \<times> nat \<times> event) list \<Rightarrow> sys \<Rightarrow> sys" where
  "run_schedule [] s = s"
| "run_schedule ((t, r, ev) # es) s = run_schedule es (step t r ev s)"

section \<open>Invariants used in the proofs\<close>

definition counter_kept :: "world \<Rightarrow> string \<Rightarrow> int \<Rightarrow> bool" where
  \<comment> \<open>the counter of window \<open>m\<close>, if present, is a number that outlives the window\<close>
  "counter_kept w u m =
     (case kv w (rateLimitKey u m) of
        None \<Rightarrow> True
      | Some (v, e) \<Rightarrow> (case v of VInt c \<Rightarrow> True | VLocked \<Rightarrow> False | VTrue \<Rightarrow> False)
                       \<and> \<not> expired e (60000 * (m + 1) - 1))"

definition lock_pinned :: "world \<Rightarrow> string \<Rightarrow> int \<Rightarrow> bool" where
  \<comment> \<open>the lock of \<open>u\<close> exists and does not expire before \<open>T\<close>\<close>
  "lock_pinned w u T =
     (case kv w (lockKey u) of None \<Rightarrow> False | Some (v, e) \<Rightarrow> \<not> expired e (T - 1))"

section \<open>Running the handler symbolically\<close>

lemma issue_simps [simp]:
  "kv (issue c w) = kv w" "queue (issue c w) = queue w"
  "log (issue c w) = log w @ [(c, served w)]" "faults (issue c w) = tl (faults w)"
  by (simp_all add: issue_def)

lemma served_upd [simp]:
  "served (w\<lparr>kv := m\<rparr>) = served w" "served (w\<lparr>queue := q\<rparr>) = served w"
  by (simp_all add: served_def)

lemma issue_upd [simp]:
  "issue c (w\<lparr>kv := m\<rparr>) = (issue c w)\<lparr>kv := m\<rparr>"
  "issue c (w\<lparr>queue := q\<rparr>) = (issue c w)\<lparr>queue := q\<rparr>"
  by (simp_all add: issue_def)

lemma show_nat_ne: "show_nat n \<noteq> []"
  by (subst show_nat.simps) simp

lemma show_int_0: "show_int 0 = ''0''"
  by (simp add: show_int_def show_nat.simps)

lemma truthy_iff [simp]: "truthy r = (r \<noteq> None)"
  by (cases r; cases "the r") (auto simp: truthy_def show_int_def show_nat_ne)

lemma andThen_return [simp]: "andThen (return x) f w = f x w"
  by (simp add: andThen_def return_def)

lemma andThen_assoc [simp]: "andThen (andThen m f) g = andThen m (\<lambda>x. andThen (f x) g)"
  by (auto simp: andThen_def fun_eq_iff split: prod.splits sum.splits)

lemma andThen_get:
  "andThen (redis_get k t) f w =
     (if served w then f (map_option fst (live (kv w) t k)) (issue (GET k) w)
      else (Inl StoreUnavailable, issue (GET k) w))"
  by (simp add: andThen_def redis_get_def)

lemma andThen_add:
  "andThen (queue_add j) f w =
     (if served w then f () ((issue (ADD j) w)\<lparr>queue := queue w @ [j]\<rparr>)
      else (Inl StoreUnavailable, issue (ADD j) w))"
  by (simp add: andThen_def queue_add_def)

lemma andThen_set_ex:
  "andThen (redis_set_ex k v secs t) f w =
     (if served w
      then f () ((issue (SET_EX k v secs) w)\<lparr>kv := (kv w)(k \<mapsto> (v, Some (t + 1000 * secs)))\<rparr>)
      else (Inl StoreUnavailable, issue (SET_EX k v secs) w))"
  by (simp add: andThen_def redis_set_ex_def)

lemma andThen_expire:
  "andThen (redis_expire k secs t) f w =
     (if served w then
        (case live (kv w) t k of
           None \<Rightarrow> f 0 (issue (EXPIRE k secs) w)
         | Some (v, e) \<Rightarrow>
             f 1 ((issue (EXPIRE k secs) w)\<lparr>kv := (kv w)(k \<mapsto> (v, Some (t + 1000 * secs)))\<rparr>))
      else (Inl StoreUnavailable, issue (EXPIRE k secs) w))"
  by (simp add: andThen_def redis_expire_def split: option.splits)

lemma andThen_incr:
  "andThen (redis_incr k t) f w =
     (if served w then
        (case live (kv w) t k of
           None \<Rightarrow> f 1 ((issue (INCR k) w)\<lparr>kv := (kv w)(k \<mapsto> (VInt 1, None))\<rparr>)
         | Some (VInt n, e) \<Rightarrow>
             f (n + 1) ((issue (INCR k) w)\<lparr>kv := (kv w)(k \<mapsto> (VInt (n + 1), e))\<rparr>)
         | Some (_, e) \<Rightarrow> (Inl NotAnInteger, issue (INCR k) w))
      else (Inl StoreUnavailable, issue (INCR k) w))"
  by (simp add: andThen_def redis_incr_def split: option.splits val.splits)

lemma andThen_del:
  "andThen (redis_del k t) f w =
     (if served w
      then f (case live (kv w) t k of None \<Rightarrow> 0 | Some x \<Rightarrow> 1)
             ((issue (DEL k) w)\<lparr>kv := (kv w)(k := None)\<rparr>)
      else (Inl StoreUnavailable, issue (DEL k) w))"
  by (simp add: andThen_def redis_del_def)

lemmas steps = andThen_get andThen_add andThen_set_ex andThen_expire andThen_incr return_def

lemmas exec = post_task_def try_catch_def admit_def steps Let_def served_def js_rem_def
  tasksPerMinute_def rateLimitKey_def rateLimitExceededKey_def live_def expired_def world0_def
  show_int_0 issue_def delayed_def queued_def

lemma flag_ne_counter [simp]:
  "rateLimitExceededKey u \<noteq> rateLimitKey u' m" "rateLimitKey u' m \<noteq> rateLimitExceededKey u"
  by (simp_all add: rateLimitExceededKey_def rateLimitKey_def)

lemma rateLimitKey_inj [simp]: "rateLimitKey u m = rateLimitKey u' m \<longleftrightarrow> u = u'"
  by (simp add: rateLimitKey_def)

lemma rateLimitExceededKey_inj [simp]:
  "rateLimitExceededKey u = rateLimitExceededKey u' \<longleftrightarrow> u = u'"
  by (simp add: rateLimitExceededKey_def)

lemma lockKey_inj [simp]: "lockKey u = lockKey u' \<longleftrightarrow> u = u'"
  by (simp add: lockKey_def)

lemma live_upd_same [simp]:
  "live (m(k \<mapsto> (v, e))) t k = (if expired e t then None else Some (v, e))"
  by (simp add: live_def)

lemma live_upd_other [simp]: "k' \<noteq> k \<Longrightarrow> live (m(k := x)) t k' = live m t k'"
  by (simp add: live_def)

lemma replicate_num: "replicate (numeral k) x = x # replicate (pred_numeral k) x"
  by (simp add: numeral_eq_Suc)

lemma expired_mono: "\<not> expired e t' \<Longrightarrow> t \<le> t' \<Longrightarrow> \<not> expired e t"
  by (auto simp: expired_def split: option.splits)

section \<open>Validation\<close>

text \<open>
  C9. A request whose work key is missing (absent or the empty string) is answered with
  400 before anything else happens: the whole world is unchanged, so no command was
  issued to the store (the log is the same) and nothing was enqueued.
\<close>

theorem missing_key_rejected:
  "user_id = None \<or> user_id = Some [] \<Longrightarrow>
   post_task user_id now w = (Response 400 ''User ID is required'', w)"
  by (auto simp: post_task_def)

theorem missing_key_rejected_witness:
  "post_task (Some []) 1000 world0 = (Response 400 ''User ID is required'', world0)
   \<and> log world0 = [] \<and> queue world0 = []"
  using missing_key_rejected [of "Some []" 1000 world0] by (simp add: world0_def)

section \<open>The flag-delayed path\<close>

text \<open>
  C10. While the rate-exceeded flag of a key is set, an admission call for that key leaves
  the whole key space as it was: the window counter, its TTL and every other key are
  unchanged. The only commands it issues are the read of the flag and the enqueueing of
  the delayed item; in particular it sends no \<open>INCR\<close>.
\<close>

theorem flagged_call_frame:
  assumes "live (kv w) now (rateLimitExceededKey uid) \<noteq> None" and "uid \<noteq> []"
  shows "kv (snd (post_task (Some uid) now w)) = kv w \<and>
         map fst (drop (length (log w)) (log (snd (post_task (Some uid) now w))))
           \<in> {[GET (rateLimitExceededKey uid)],
               [GET (rateLimitExceededKey uid), ADD (Job uid (Some (60000 - js_rem now 60000)))]}"
  using assms
  by (simp add: post_task_def try_catch_def admit_def steps Let_def)

theorem flagged_call_frame_witness:
  "live (kv (world0\<lparr>kv := [''rateLimitExceeded:123'' \<mapsto> (VTrue, Some 90000)]\<rparr>)) 61000
      (rateLimitExceededKey ''123'') \<noteq> None
   \<and> ''123'' \<noteq> []
   \<and> kv (snd (post_task (Some ''123'') 61000
              (world0\<lparr>kv := [''rateLimitExceeded:123'' \<mapsto> (VTrue, Some 90000)]\<rparr>)))
       = kv (world0\<lparr>kv := [''rateLimitExceeded:123'' \<mapsto> (VTrue, Some 90000)]\<rparr>)
   \<and> map fst (log (snd (post_task (Some ''123'') 61000
              (world0\<lparr>kv := [''rateLimitExceeded:123'' \<mapsto> (VTrue, Some 90000)]\<rparr>))))
       = [GET ''rateLimitExceeded:123'', ADD (Job ''123'' (Some 59000))]"
proof -
  let ?w = "world0\<lparr>kv := [''rateLimitExceeded:123'' \<mapsto> (VTrue, Some 90000)]\<rparr>"
  have h: "live (kv ?w) 61000 (rateLimitExceededKey ''123'') \<noteq> None"
    by (simp add: exec)
  have l: "map fst (log (snd (post_task (Some ''123'') 61000 ?w)))
             = [GET ''rateLimitExceeded:123'', ADD (Job ''123'' (Some 59000))]"
    by (simp add: exec)
  from flagged_call_frame [OF h] h l show ?thesis by simp
qed

section \<open>Store unavailability\<close>

lemma admit_outcome:
  "case admit uid t w of
     (Inl e, w') \<Rightarrow> queue w' = queue w
   | (Inr r, w') \<Rightarrow> list_all snd (drop (length (log w)) (log w'))"
  by (simp add: admit_def steps Let_def split: option.split val.split prod.split)

text \<open>
  C6. If the store rejects any command that an admission call issues, the call answers
  500 (never 200) and enqueues nothing: it fails closed.
\<close>

theorem fails_closed:
  assumes "post_task user_id now w = (r, w')"
      and "(c, False) \<in> set (drop (length (log w)) (log w'))"
  shows "r = Response 500 ''Internal server error'' \<and> queue w' = queue w"
proof (cases "user_id = None \<or> user_id = Some []")
  case True
  with assms show ?thesis by (auto simp: post_task_def)
next
  case False
  then obtain uid where u: "user_id = Some uid" "uid \<noteq> []" by auto
  from assms(2) have nall: "\<not> list_all snd (drop (length (log w)) (log w'))"
    by (force simp: list_all_iff)
  from assms(1) u have pt: "try_catch (admit uid now) w = (r, w')"
    by (simp add: post_task_def)
  show ?thesis
  proof (cases "admit uid now w")
    case (Pair x w1)
    with pt have w1: "w1 = w'" by (simp add: try_catch_def split: sum.splits)
    show ?thesis
    proof (cases x)
      case (Inl e)
      with Pair pt admit_outcome [where uid=uid and t=now and w=w] show ?thesis
        by (simp add: try_catch_def)
    next
      case (Inr r')
      with Pair w1 admit_outcome [where uid=uid and t=now and w=w] nall show ?thesis by simp
    qed
  qed
qed

theorem fails_closed_witness:
  "(GET ''rateLimitExceeded:123'', False)
     \<in> set (drop (length (log (world0\<lparr>faults := [True]\<rparr>)))
                 (log (snd (post_task (Some ''123'') 1000 (world0\<lparr>faults := [True]\<rparr>)))))
   \<and> fst (post_task (Some ''123'') 1000 (world0\<lparr>faults := [True]\<rparr>))
       = Response 500 ''Internal server error''
   \<and> queue (snd (post_task (Some ''123'') 1000 (world0\<lparr>faults := [True]\<rparr>)))
       = queue (world0\<lparr>faults := [True]\<rparr>)"
  using fails_closed [of "Some ''123''" 1000 "world0\<lparr>faults := [True]\<rparr>"
      "fst (post_task (Some ''123'') 1000 (world0\<lparr>faults := [True]\<rparr>))"
      "snd (post_task (Some ''123'') 1000 (world0\<lparr>faults := [True]\<rparr>))"
      "GET ''rateLimitExceeded:123''"]
  by (simp add: exec)

section \<open>The per-window cap\<close>

lemma in_window: "t div 60000 = m \<Longrightarrow> t < 60000 * (m + 1) \<and> 60000 * m \<le> (t::int)"
  by auto

lemma admit_counter_other:
  assumes "uid \<noteq> u"
  shows "kv (snd (admit uid t w)) (rateLimitKey u (t div 60000)) = kv w (rateLimitKey u (t div 60000))"
  using assms
  by (simp add: admit_def steps Let_def split: option.split val.split prod.split)

lemma admit_counter_fresh:
  assumes "kv w (rateLimitKey u (t div 60000)) = None"
  shows "case admit u t w of (x, w') \<Rightarrow>
           (kv w' (rateLimitKey u (t div 60000)) = None \<and> x \<noteq> Inr queued) \<or>
           kv w' (rateLimitKey u (t div 60000)) = Some (VInt 1, None) \<and> x \<noteq> Inr queued \<or>
           kv w' (rateLimitKey u (t div 60000)) = Some (VInt 1, Some (t + 60000))"
  using assms
  by (simp add: admit_def steps Let_def live_def expired_def tasksPerMinute_def queued_def delayed_def
      split: option.split val.split prod.split)

lemma admit_counter_bump:
  assumes "live (kv w) t (rateLimitKey u (t div 60000)) = Some (VInt c, e)"
  shows "case admit u t w of (x, w') \<Rightarrow>
           (kv w' (rateLimitKey u (t div 60000)) = kv w (rateLimitKey u (t div 60000)) \<and> x \<noteq> Inr queued) \<or>
           (kv w' (rateLimitKey u (t div 60000)) = Some (VInt (c + 1), e) \<or>
            kv w' (rateLimitKey u (t div 60000)) = Some (VInt (c + 1), Some (t + 60000))) \<and>
           (x = Inr queued \<longrightarrow> c + 1 \<le> 20)"
  using assms
  by (simp add: admit_def steps Let_def expired_def tasksPerMinute_def queued_def delayed_def
      split: option.split val.split prod.split)

lemma kept_cases:
  assumes "counter_kept w u (t div 60000)"
  obtains "kv w (rateLimitKey u (t div 60000)) = None"
  | c e where "kv w (rateLimitKey u (t div 60000)) = Some (VInt c, e)"
      "live (kv w) t (rateLimitKey u (t div 60000)) = Some (VInt c, e)"
      "\<not> expired e (60000 * (t div 60000 + 1) - 1)"
proof (cases "kv w (rateLimitKey u (t div 60000))")
  case None
  then show ?thesis using that by simp
next
  case (Some p)
  obtain v e where p: "p = (v, e)" by (cases p)
  from assms Some p obtain c where v: "v = VInt c"
    by (cases v) (simp_all add: counter_kept_def)
  from assms Some p have ne: "\<not> expired e (60000 * (t div 60000 + 1) - 1)"
    by (simp add: counter_kept_def)
  have "t \<le> 60000 * (t div 60000 + 1) - 1" by simp
  with ne have "\<not> expired e t" by (rule expired_mono)
  with Some p v ne show ?thesis using that by (simp add: live_def)
qed

lemma counter_facts:
  "kv w' k = kv w k \<Longrightarrow> k = rateLimitKey u m \<Longrightarrow>
   counter_kept w' u m = counter_kept w u m \<and> window_counter w' u m = window_counter w u m"
  by (simp add: counter_kept_def window_counter_def)

lemma post_counter:
  assumes kept: "counter_kept w u m" and win: "t div 60000 = m"
      and pt: "post_task user t w = (r, w')"
  shows "counter_kept w' u m \<and> window_counter w u m \<le> window_counter w' u m \<and>
         (user = Some u \<and> r = queued \<longrightarrow>
            window_counter w' u m = window_counter w u m + 1 \<and> window_counter w' u m \<le> 20)"
proof (cases "user = None \<or> user = Some []")
  case True
  with pt have "w' = w" "r \<noteq> queued" by (auto simp: post_task_def queued_def)
  with kept show ?thesis by simp
next
  case False
  then obtain uid where u: "user = Some uid" "uid \<noteq> []" by auto
  obtain x where ad: "admit uid t w = (x, w')" and rq: "r = queued \<longleftrightarrow> x = Inr queued"
    using pt u by (cases "admit uid t w") (auto simp: post_task_def try_catch_def queued_def split: sum.splits)
  let ?K = "rateLimitKey u (t div 60000)"
  show ?thesis
  proof (cases "uid = u")
    case False
    with admit_counter_other [of uid u t w] ad have "kv w' ?K = kv w ?K" by simp
    from counter_facts [OF this] win kept u False show ?thesis by auto
  next
    case True
    from kept win have kept': "counter_kept w u (t div 60000)" by simp
    show ?thesis
    proof (rule kept_cases [OF kept'])
      assume none: "kv w ?K = None"
      from admit_counter_fresh [OF none] ad True
      have "(kv w' ?K = None \<and> x \<noteq> Inr queued) \<or>
            kv w' ?K = Some (VInt 1, None) \<and> x \<noteq> Inr queued \<or>
            kv w' ?K = Some (VInt 1, Some (t + 60000))" by simp
      moreover have "60000 * (t div 60000 + 1) - 1 < t + 60000" by simp
      ultimately show ?thesis using none win rq
        by (auto simp: counter_kept_def window_counter_def expired_def)
    next
      fix c e
      assume some: "kv w ?K = Some (VInt c, e)" and lv: "live (kv w) t ?K = Some (VInt c, e)"
        and ne: "\<not> expired e (60000 * (t div 60000 + 1) - 1)"
      from admit_counter_bump [OF lv] ad True
      have "(kv w' ?K = kv w ?K \<and> x \<noteq> Inr queued) \<or>
            (kv w' ?K = Some (VInt (c + 1), e) \<or> kv w' ?K = Some (VInt (c + 1), Some (t + 60000))) \<and>
            (x = Inr queued \<longrightarrow> c + 1 \<le> 20)" by simp
      moreover have "60000 * (t div 60000 + 1) - 1 < t + 60000" by simp
      ultimately show ?thesis using some win rq ne
        by (auto simp: counter_kept_def window_counter_def expired_def)
    qed
  qed
qed


lemma post_faults: "faults w = [] \<Longrightarrow> faults (snd (post_task user t w)) = []"
  by (cases user)
     (simp_all add: post_task_def try_catch_def admit_def steps Let_def
        split: option.split val.split prod.split sum.split)



lemma submit_all_append:
  "submit_all (pre @ post) w =
     (fst (submit_all pre w) @ fst (submit_all post (snd (submit_all pre w))),
      snd (submit_all post (snd (submit_all pre w))))"
  by (induction pre arbitrary: w) (auto split: prod.splits)

lemma submit_all_Cons:
  "fst (submit_all ((user, t) # cs) w) = fst (post_task user t w) # fst (submit_all cs (snd (post_task user t w)))"
  "snd (submit_all ((user, t) # cs) w) = snd (submit_all cs (snd (post_task user t w)))"
  by (simp_all split: prod.splits)

lemma submit_all_faults: "faults w = [] \<Longrightarrow> faults (snd (submit_all calls w)) = []"
proof (induction calls arbitrary: w)
  case Nil
  then show ?case by simp
next
  case (Cons a calls)
  obtain user t where a: "a = (user, t)" by (cases a)
  from post_faults [OF Cons.prems, of user t] have "faults (snd (post_task user t w)) = []" .
  from Cons.IH [OF this] a show ?case by (simp add: submit_all_Cons del: submit_all.simps(2))
qed

lemma post_under:
  assumes "counter_kept w u m" and "t div 60000 = m" and "window_counter w u m < 20"
      and "faults w = []" and "u \<noteq> []" and "live (kv w) t (rateLimitExceededKey u) = None"
  shows "fst (post_task (Some u) t w) = queued \<and>
         kv (snd (post_task (Some u) t w)) (rateLimitExceededKey u) = kv w (rateLimitExceededKey u)"
proof -
  from assms(1,2) have kept': "counter_kept w u (t div 60000)" by simp
  show ?thesis
  proof (rule kept_cases [OF kept'])
    assume "kv w (rateLimitKey u (t div 60000)) = None"
    with assms(4,5,6) show ?thesis
      by (simp add: post_task_def try_catch_def admit_def steps Let_def served_def tasksPerMinute_def
          live_def expired_def)
  next
    fix c e
    assume some: "kv w (rateLimitKey u (t div 60000)) = Some (VInt c, e)"
      and lv: "live (kv w) t (rateLimitKey u (t div 60000)) = Some (VInt c, e)"
    from some assms(2,3) have "c < 20" by (simp add: window_counter_def)
    with lv assms(4,5,6) show ?thesis
      by (simp add: post_task_def try_catch_def admit_def steps Let_def served_def tasksPerMinute_def
          expired_def)
  qed
qed

lemma burst:
  assumes "counter_kept w u m" and "t div 60000 = m" and "window_counter w u m + int k \<le> 20"
      and "faults w = []" and "u \<noteq> []" and "live (kv w) t (rateLimitExceededKey u) = None"
  shows "fst (submit_all (replicate k (Some u, t)) w) = replicate k queued \<and>
         window_counter (snd (submit_all (replicate k (Some u, t)) w)) u m = window_counter w u m + int k \<and>
         counter_kept (snd (submit_all (replicate k (Some u, t)) w)) u m \<and>
         live (kv (snd (submit_all (replicate k (Some u, t)) w))) t (rateLimitExceededKey u) = None"
  using assms
proof (induction k arbitrary: w)
  case 0
  then show ?case by simp
next
  case (Suc k)
  obtain r w1 where pt: "post_task (Some u) t w = (r, w1)" by (cases "post_task (Some u) t w")
  from Suc.prems have lt: "window_counter w u m < 20" by simp
  from post_under [OF Suc.prems(1,2) lt Suc.prems(4,5,6)] pt
  have r: "r = queued" and fl: "kv w1 (rateLimitExceededKey u) = kv w (rateLimitExceededKey u)" by simp_all
  from post_counter [OF Suc.prems(1,2) pt] r
  have k1: "counter_kept w1 u m" and c1: "window_counter w1 u m = window_counter w u m + 1" by simp_all
  from post_faults [OF Suc.prems(4), of "Some u" t] pt have f1: "faults w1 = []" by simp
  from fl Suc.prems(6) have l1: "live (kv w1) t (rateLimitExceededKey u) = None" by (simp add: live_def)
  from c1 Suc.prems(3) have b1: "window_counter w1 u m + int k \<le> 20" by simp
  from Suc.IH [OF k1 Suc.prems(2) b1 f1 Suc.prems(5) l1] pt r c1 show ?case
    by (simp add: submit_all_Cons del: submit_all.simps(2))
qed

lemma overflow_step:
  assumes "faults w = []" and "uid \<noteq> []"
      and "live (kv w) now (rateLimitExceededKey uid) = None"
      and "live (kv w) now (rateLimitKey uid (now div 60000)) = Some (VInt n, e)"
      and "20 \<le> n"
  shows "fst (post_task (Some uid) now w) = delayed \<and>
         kv (snd (post_task (Some uid) now w)) (rateLimitExceededKey uid) = Some (VTrue, Some (now + 60000)) \<and>
         kv (snd (post_task (Some uid) now w)) (rateLimitKey uid (now div 60000)) = Some (VInt (n + 1), e) \<and>
         queue (snd (post_task (Some uid) now w)) = queue w @ [Job uid (Some (60000 - js_rem now 60000))]"
  using assms
  by (simp add: post_task_def try_catch_def admit_def steps Let_def served_def tasksPerMinute_def)

lemma replicate_21: "replicate 21 x = replicate 20 x @ [x]"
  by (simp add: replicate_num)

lemma after_20:
  assumes "t div 60000 = 0"
  shows "fst (submit_all (replicate 20 (Some ''123'', t)) world0) = replicate 20 queued
       \<and> window_counter (snd (submit_all (replicate 20 (Some ''123'', t)) world0)) ''123'' 0 = 20
       \<and> counter_kept (snd (submit_all (replicate 20 (Some ''123'', t)) world0)) ''123'' 0
       \<and> live (kv (snd (submit_all (replicate 20 (Some ''123'', t)) world0))) t (rateLimitExceededKey ''123'') = None
       \<and> faults (snd (submit_all (replicate 20 (Some ''123'', t)) world0)) = []"
proof -
  have k: "counter_kept world0 ''123'' 0" and c: "window_counter world0 ''123'' 0 + int 20 \<le> 20"
    and f: "faults world0 = []" and l: "live (kv world0) t (rateLimitExceededKey ''123'') = None"
    by (simp_all add: counter_kept_def window_counter_def world0_def live_def)
  from burst [OF k assms c f _ l] submit_all_faults [OF f] c show ?thesis
    by (simp add: window_counter_def world0_def)
qed

lemma after_21:
  assumes "t div 60000 = 0"
  shows "kv (snd (submit_all (replicate 21 (Some ''123'', t)) world0)) (rateLimitExceededKey ''123'')
           = Some (VTrue, Some (t + 60000))
       \<and> window_counter (snd (submit_all (replicate 21 (Some ''123'', t)) world0)) ''123'' 0 = 21"
proof -
  let ?w = "snd (submit_all (replicate 20 (Some ''123'', t)) world0)"
  note a = after_20 [OF assms]
  from a have kept: "counter_kept ?w ''123'' (t div 60000)" using assms by simp
  from kept obtain e where lv: "live (kv ?w) t (rateLimitKey ''123'' (t div 60000)) = Some (VInt 20, e)"
  proof (rule kept_cases)
    assume "kv ?w (rateLimitKey ''123'' (t div 60000)) = None"
    with a assms have False by (simp add: window_counter_def)
    then show ?thesis ..
  next
    fix c e
    assume "kv ?w (rateLimitKey ''123'' (t div 60000)) = Some (VInt c, e)"
      "live (kv ?w) t (rateLimitKey ''123'' (t div 60000)) = Some (VInt c, e)"
    with a assms that show ?thesis by (simp add: window_counter_def)
  qed
  from a have f: "faults ?w = []" and l: "live (kv ?w) t (rateLimitExceededKey ''123'') = None" by simp_all
  from overflow_step [OF f _ l lv] assms show ?thesis
    by (simp add: replicate_21 submit_all_append submit_all_Cons window_counter_def del: submit_all.simps(2))
qed



section \<open>The rate-exceeded flag\<close>

text \<open>
  C4, as the specification states it, gives the flag a TTL equal to the rest of the
  current window. The handler sets the flag with \<open>EX 60\<close>: 21 requests at 30 000 ms leave
  the flag with expiry 90 000 ms, a TTL of 60 000 ms, where the rest of the window is
  30 000 ms.
\<close>

theorem flag_ttl_counterexample:
  "kv (snd (submit_all (replicate 21 (Some ''123'', 30000)) world0)) (rateLimitExceededKey ''123'')
     = Some (VTrue, Some 90000)
   \<and> kv (snd (submit_all (replicate 21 (Some ''123'', 30000)) world0)) (rateLimitExceededKey ''123'')
     \<noteq> Some (VTrue, Some (30000 + (60000 - 30000 mod 60000)))"
  using after_21 [of 30000] by simp

text \<open>
  C4, amended. When the store is available and the post-increment window counter of an
  admission call exceeds the cap of 20, the handler sets the rate-exceeded flag of that
  key with a fixed TTL of 60 seconds (it expires 60 000 ms after the call, whatever is
  left of the window), enqueues the item with delay \<open>60000 - now mod 60000\<close> and answers
  429.
\<close>

theorem overflow_sets_flag:
  assumes "faults w = []" and "uid \<noteq> []" and "0 \<le> now"
      and "live (kv w) now (rateLimitExceededKey uid) = None"
      and "live (kv w) now (rateLimitKey uid (now div 60000)) = Some (VInt n, e)"
      and "tasksPerMinute \<le> n"
      and "post_task (Some uid) now w = (r, w')"
  shows "r = delayed \<and>
         kv w' (rateLimitExceededKey uid) = Some (VTrue, Some (now + 60000)) \<and>
         queue w' = queue w @ [Job uid (Some (60000 - now mod 60000))]"
  using assms
  by (auto simp: post_task_def try_catch_def admit_def steps Let_def served_def js_rem_def tasksPerMinute_def)

theorem overflow_sets_flag_witness:
  "faults (world0\<lparr>kv := [''rateLimit:123:0'' \<mapsto> (VInt 20, Some 60000)]\<rparr>) = []
   \<and> ''123'' \<noteq> [] \<and> (0::int) \<le> 30000
   \<and> live (kv (world0\<lparr>kv := [''rateLimit:123:0'' \<mapsto> (VInt 20, Some 60000)]\<rparr>)) 30000
        (rateLimitExceededKey ''123'') = None
   \<and> live (kv (world0\<lparr>kv := [''rateLimit:123:0'' \<mapsto> (VInt 20, Some 60000)]\<rparr>)) 30000
        (rateLimitKey ''123'' (30000 div 60000)) = Some (VInt 20, Some 60000)
   \<and> tasksPerMinute \<le> 20
   \<and> fst (post_task (Some ''123'') 30000
            (world0\<lparr>kv := [''rateLimit:123:0'' \<mapsto> (VInt 20, Some 60000)]\<rparr>)) = delayed
   \<and> kv (snd (post_task (Some ''123'') 30000
            (world0\<lparr>kv := [''rateLimit:123:0'' \<mapsto> (VInt 20, Some 60000)]\<rparr>)))
        (rateLimitExceededKey ''123'') = Some (VTrue, Some (30000 + 60000))
   \<and> queue (snd (post_task (Some ''123'') 30000
            (world0\<lparr>kv := [''rateLimit:123:0'' \<mapsto> (VInt 20, Some 60000)]\<rparr>)))
        = queue (world0\<lparr>kv := [''rateLimit:123:0'' \<mapsto> (VInt 20, Some 60000)]\<rparr>)
          @ [Job ''123'' (Some (60000 - 30000 mod 60000))]"
proof -
  let ?w = "world0\<lparr>kv := [''rateLimit:123:0'' \<mapsto> (VInt 20, Some 60000)]\<rparr>"
  have h1: "faults ?w = []" by (simp add: world0_def)
  have h2: "''123'' \<noteq> []" by simp
  have h3: "(0::int) \<le> 30000" by simp
  have h4: "live (kv ?w) 30000 (rateLimitExceededKey ''123'') = None" by (simp add: exec)
  have h5: "live (kv ?w) 30000 (rateLimitKey ''123'' (30000 div 60000)) = Some (VInt 20, Some 60000)"
    by (simp add: exec)
  have h6: "tasksPerMinute \<le> 20" by (simp add: tasksPerMinute_def)
  have h7: "post_task (Some ''123'') 30000 ?w
              = (fst (post_task (Some ''123'') 30000 ?w), snd (post_task (Some ''123'') 30000 ?w))"
    by simp
  from overflow_sets_flag [OF h1 h2 h3 h4 h5 h6 h7] h1 h2 h3 h4 h5 h6 show ?thesis by blast
qed

section \<open>The execution lock\<close>

lemmas wexec = step_def try_lock_def spacing_def invoke_def record_execution_def release_def caught_def
  acquireLock_def releaseLock_def andThen_del return_def redis_set_nx_ex_def redis_get_def redis_set_def
  spacing_delay_def sleep_def lockKey_def lastExecutionKey_def live_def expired_def served_def issue_def
  sys0_def world0_def Let_def

lemma acquire_other: "u' \<noteq> u \<Longrightarrow> kv (snd (acquireLock u' t w)) (lockKey u) = kv w (lockKey u)"
  by (simp add: acquireLock_def redis_set_nx_ex_def split: option.split)

lemma acquire_pinned:
  assumes "lock_pinned w u T" "t < T"
  shows "fst (acquireLock u t w) \<noteq> Inr True \<and> kv (snd (acquireLock u t w)) (lockKey u) = kv w (lockKey u)"
proof -
  from assms obtain v e where "kv w (lockKey u) = Some (v, e)" "\<not> expired e (T - 1)"
    by (auto simp: lock_pinned_def split: option.splits)
  moreover from this assms(2) have "\<not> expired e t" by (intro expired_mono [of e "T - 1" t]) auto
  ultimately show ?thesis
    by (simp add: acquireLock_def redis_set_nx_ex_def live_def)
qed

lemma acquire_success_pins:
  assumes "fst (acquireLock u t w) = Inr True"
  shows "kv (snd (acquireLock u t w)) (lockKey u) = Some (VLocked, Some (t + 5000))"
  using assms
  by (simp add: acquireLock_def redis_set_nx_ex_def split: if_splits option.splits)

lemma acquire_log:
  "map fst (drop (length (log w)) (log (snd (acquireLock u t w)))) = [SET_NX_EX (lockKey u) VLocked 5]"
  by (simp add: acquireLock_def redis_set_nx_ex_def split: option.split)

lemma lock_calls_Cons:
  "fst (lock_calls ((c, t) # cs) w) = fst (lock_call c t w) # fst (lock_calls cs (snd (lock_call c t w)))"
  by (simp split: prod.splits)

lemma lock_call_proj:
  "snd (lock_call (Acquire u) t w) = snd (acquireLock u t w)"
  "fst (lock_call (Acquire u) t w) = (fst (acquireLock u t w) = Inr True)"
  "snd (lock_call (Release u) t w) = snd (releaseLock u t w)"
  "fst (lock_call (Release u) t w) = False"
  by (simp_all split: prod.splits)

lemma acquire_effect:
  "kv (snd (acquireLock u t w)) (lockKey u) = kv w (lockKey u) \<or>
   kv (snd (acquireLock u t w)) (lockKey u) = Some (VLocked, Some (t + 5000))"
  by (simp add: acquireLock_def redis_set_nx_ex_def split: option.split)

lemma release_other: "u' \<noteq> u \<Longrightarrow> kv (snd (releaseLock u' t w)) (lockKey u) = kv w (lockKey u)"
  by (simp add: releaseLock_def andThen_del return_def)

lemma lock_call_pinned:
  assumes pin: "lock_pinned w u T" and nr: "c \<noteq> Release u"
  shows "lock_pinned (snd (lock_call c t w)) u T \<and> (c = Acquire u \<and> fst (lock_call c t w) \<longrightarrow> T \<le> t)"
proof (cases c)
  case (Acquire u')
  show ?thesis
  proof (cases "u' = u")
    case False
    with Acquire pin acquire_other [of u' u t w] show ?thesis
      by (simp add: lock_pinned_def lock_call_proj del: lock_call.simps)
  next
    case True
    show ?thesis
    proof (cases "t < T")
      case lt: True
      from acquire_pinned [OF pin lt] Acquire True pin show ?thesis
        by (simp add: lock_pinned_def lock_call_proj del: lock_call.simps)
    next
      case ge: False
      from acquire_effect [of u t w] pin ge
      have "lock_pinned (snd (acquireLock u t w)) u T"
        by (auto simp: lock_pinned_def expired_def)
      with Acquire True ge show ?thesis by (simp add: lock_call_proj del: lock_call.simps)
    qed
  qed
next
  case (Release u')
  with nr have "u' \<noteq> u" by simp
  with Release pin release_other [of u' u t w] show ?thesis
    by (simp add: lock_pinned_def lock_call_proj del: lock_call.simps)
qed

lemma pinned_later:
  assumes "lock_pinned w u T" and "j < length cs" and "\<forall>k<j. fst (cs ! k) \<noteq> Release u"
      and "cs ! j = (Acquire u, tj)" and "fst (lock_calls cs w) ! j"
  shows "T \<le> tj"
  using assms
proof (induction cs arbitrary: j w)
  case Nil
  then show ?case by simp
next
  case (Cons a cs)
  obtain c t where a: "a = (c, t)" by (cases a)
  show ?case
  proof (cases j)
    case 0
    with Cons.prems a have "c = Acquire u" "t = tj" "fst (lock_call c t w)"
      by (simp_all add: lock_calls_Cons del: lock_calls.simps(2))
    moreover from this have "c \<noteq> Release u" by simp
    ultimately show ?thesis using lock_call_pinned [OF Cons.prems(1), of c t] by simp
  next
    case (Suc j')
    from Cons.prems(3) Suc a have nr: "c \<noteq> Release u" by auto
    from lock_call_pinned [OF Cons.prems(1) nr, of t]
    have pin: "lock_pinned (snd (lock_call c t w)) u T" by simp
    from Cons.prems Suc have "j' < length cs" "cs ! j' = (Acquire u, tj)" by simp_all
    moreover from Cons.prems(3) Suc have "\<forall>k<j'. fst (cs ! k) \<noteq> Release u" by auto
    moreover from Cons.prems(5) Suc a have "fst (lock_calls cs (snd (lock_call c t w))) ! j'"
      by (simp add: lock_calls_Cons del: lock_calls.simps(2))
    ultimately show ?thesis using Cons.IH [OF pin] by blast
  qed
qed

lemma second_acquire:
  assumes "i < j" and "j < length calls"
      and "calls ! i = (Acquire u, ti)" and "calls ! j = (Acquire u, tj)"
      and "fst (lock_calls calls w) ! i" and "fst (lock_calls calls w) ! j"
  shows "(\<exists>k. i < k \<and> k < j \<and> fst (calls ! k) = Release u) \<or> ti + 5000 < tj"
  using assms
proof (induction calls arbitrary: i j w)
  case Nil
  then show ?case by simp
next
  case (Cons a cs)
  obtain c t where a: "a = (c, t)" by (cases a)
  from Cons.prems(1) obtain j' where j: "j = Suc j'" by (cases j) auto
  let ?w1 = "snd (lock_call c t w)"
  from Cons.prems j a have j': "j' < length cs" "cs ! j' = (Acquire u, tj)"
    "fst (lock_calls cs ?w1) ! j'"
    by (simp_all add: lock_calls_Cons del: lock_calls.simps(2))
  show ?case
  proof (cases i)
    case 0
    with Cons.prems a have c: "c = Acquire u" "t = ti" and ok: "fst (lock_call c t w)"
      by (simp_all add: lock_calls_Cons del: lock_calls.simps(2))
    from c ok have "fst (acquireLock u ti w) = Inr True"
      by (simp add: lock_call_proj del: lock_call.simps)
    from acquire_success_pins [OF this] c
    have pin: "lock_pinned ?w1 u (ti + 5001)"
      by (simp add: lock_pinned_def expired_def lock_call_proj del: lock_call.simps)
    show ?thesis
    proof (cases "\<forall>k<j'. fst (cs ! k) \<noteq> Release u")
      case True
      from pinned_later [OF pin j'(1) True j'(2,3)] show ?thesis by simp
    next
      case False
      then obtain k where "k < j'" "fst (cs ! k) = Release u" by auto
      with 0 j have "i < Suc k \<and> Suc k < j \<and> fst ((a # cs) ! Suc k) = Release u" by simp
      then show ?thesis by blast
    qed
  next
    case (Suc i')
    with Cons.prems j a have "i' < j'" "cs ! i' = (Acquire u, ti)" "fst (lock_calls cs ?w1) ! i'"
      by (simp_all add: lock_calls_Cons del: lock_calls.simps(2))
    from Cons.IH [OF this(1) j'(1) this(2) j'(2) this(3) j'(3)]
    show ?thesis
    proof
      assume "\<exists>k. i' < k \<and> k < j' \<and> fst (cs ! k) = Release u"
      then obtain k where "i' < k" "k < j'" "fst (cs ! k) = Release u" by blast
      with Suc j have "i < Suc k \<and> Suc k < j \<and> fst ((a # cs) ! Suc k) = Release u" by simp
      then show ?thesis by blast
    next
      assume "ti + 5000 < tj"
      then show ?thesis ..
    qed
  qed
qed

text \<open>
  C3, as the specification states it, has at most one holder of the lock of a work key at
  every instant. The lock is a lease of 5 seconds: replica 0 obtains the lock of key 123
  at 0 and is still executing the task at 5001, when replica 1 obtains the same lock; both
  calls of \<open>acquireLock\<close> returned true and both replicas are between acquire and release.
\<close>

theorem two_holders_counterexample:
  "stage (run_schedule [(0, 0, Deliver ''123''), (0, 0, Resume), (5001, 1, Deliver ''123'')] sys0) 0
     = Executing ''123''
   \<and> stage (run_schedule [(0, 0, Deliver ''123''), (0, 0, Resume), (5001, 1, Deliver ''123'')] sys0) 1
     = Spacing ''123''
   \<and> fst (lock_calls [(Acquire ''123'', 0), (Acquire ''123'', 5001)] world0) = [True, True]"
  by (simp add: wexec)

text \<open>
  C3, amended. \<open>acquireLock\<close> issues exactly one command, a set-if-absent with a TTL of 5
  seconds, and never returns true while the lock key exists. Hence, in any sequence of
  acquire and release calls (for any keys, at any times, whatever the store rejects), of
  two successful acquires of the same key the later one comes after a release of that key
  or more than 5000 ms after the earlier one: from a successful acquire until the key is
  released or its lease has run out, nobody else obtains the lock.
\<close>

theorem lock_exclusive:
  assumes "i < j" and "j < length calls"
      and "calls ! i = (Acquire u, ti)" and "calls ! j = (Acquire u, tj)"
      and "fst (lock_calls calls w) ! i" and "fst (lock_calls calls w) ! j"
  shows "((\<exists>k. i < k \<and> k < j \<and> fst (calls ! k) = Release u) \<or> ti + 5000 < tj) \<and>
         (live (kv w') t (lockKey u) \<noteq> None \<longrightarrow> fst (acquireLock u t w') \<noteq> Inr True) \<and>
         map fst (drop (length (log w')) (log (snd (acquireLock u t w'))))
           = [SET_NX_EX (lockKey u) VLocked 5]"
proof -
  have "fst (acquireLock u t w') \<noteq> Inr True" if "live (kv w') t (lockKey u) \<noteq> None"
    using that by (auto simp: acquireLock_def redis_set_nx_ex_def)
  with second_acquire [OF assms] acquire_log show ?thesis by simp
qed

theorem lock_exclusive_witness:
  "(0::nat) < 3 \<and> (3::nat) < length [(Acquire ''123'', 0), (Acquire ''123'', 100), (Release ''123'', 200), (Acquire ''123'', 300::int)]
   \<and> [(Acquire ''123'', 0), (Acquire ''123'', 100), (Release ''123'', 200), (Acquire ''123'', 300::int)] ! 0
        = (Acquire ''123'', 0)
   \<and> [(Acquire ''123'', 0), (Acquire ''123'', 100), (Release ''123'', 200), (Acquire ''123'', 300::int)] ! 3
        = (Acquire ''123'', 300)
   \<and> fst (lock_calls [(Acquire ''123'', 0), (Acquire ''123'', 100), (Release ''123'', 200), (Acquire ''123'', 300)] world0)
        = [True, False, False, True]
   \<and> ((\<exists>k. 0 < k \<and> k < 3 \<and>
            fst ([(Acquire ''123'', 0), (Acquire ''123'', 100), (Release ''123'', 200), (Acquire ''123'', 300::int)] ! k)
              = Release ''123'')
        \<or> (0::int) + 5000 < 300)
   \<and> live (kv (snd (acquireLock ''123'' 0 world0))) 100 (lockKey ''123'') \<noteq> None
   \<and> fst (acquireLock ''123'' 100 (snd (acquireLock ''123'' 0 world0))) \<noteq> Inr True"
proof -
  let ?cs = "[(Acquire ''123'', 0), (Acquire ''123'', 100), (Release ''123'', 200), (Acquire ''123'', 300::int)]"
  have h1: "(0::nat) < 3" and h2: "(3::nat) < length ?cs" by simp_all
  have h3: "?cs ! 0 = (Acquire ''123'', 0)" and h4: "?cs ! 3 = (Acquire ''123'', 300)" by simp_all
  have e: "fst (lock_calls ?cs world0) = [True, False, False, True]"
    by (simp add: wexec)
  then have h5: "fst (lock_calls ?cs world0) ! 0" and h6: "fst (lock_calls ?cs world0) ! 3"
    by simp_all
  have l: "live (kv (snd (acquireLock ''123'' 0 world0))) 100 (lockKey ''123'') \<noteq> None"
    by (simp add: wexec)
  note le = lock_exclusive [OF h1 h2 h3 h4 h5 h6, where t = 100
      and w' = "snd (acquireLock ''123'' 0 world0)"]
  from le have c1: "(\<exists>k. 0 < k \<and> k < 3 \<and> fst (?cs ! k) = Release ''123'') \<or> (0::int) + 5000 < 300"
    by (rule conjunct1)
  from le [THEN conjunct2, THEN conjunct1] l
  have c2: "fst (acquireLock ''123'' 100 (snd (acquireLock ''123'' 0 world0))) \<noteq> Inr True" by simp
  from h1 h2 h3 h4 e c1 l c2 show ?thesis by (intro conjI)
qed

text \<open>
  C7, as the specification states it, lets a late \<open>release\<close> never delete a lock that
  another owner has re-acquired. \<open>releaseLock\<close> is a plain \<open>DEL\<close>: the first holder
  takes the lock at 0, its lease ends at 5000, a second holder takes the lock at 5001, and
  the first holder's release at 5002 deletes the second holder's lock, so that a third
  attempt at 5003 succeeds while the second holder's lease runs until 10001.
\<close>

theorem release_deletes_foreign_lock:
  "fst (acquireLock ''123'' 0 world0) = Inr True
   \<and> fst (acquireLock ''123'' 5001 (snd (acquireLock ''123'' 0 world0))) = Inr True
   \<and> live (kv (snd (acquireLock ''123'' 5001 (snd (acquireLock ''123'' 0 world0))))) 5002 (lockKey ''123'')
       = Some (VLocked, Some 10001)
   \<and> live (kv (snd (releaseLock ''123'' 5002
                (snd (acquireLock ''123'' 5001 (snd (acquireLock ''123'' 0 world0))))))) 5002 (lockKey ''123'')
       = None
   \<and> fst (acquireLock ''123'' 5003
            (snd (releaseLock ''123'' 5002
               (snd (acquireLock ''123'' 5001 (snd (acquireLock ''123'' 0 world0))))))) = Inr True"
  by (simp add: wexec)

text \<open>
  C7, amended. \<open>release(work_key)\<close> deletes the lock key of the work key whoever holds
  it, and touches no other key. Issued after the lease has expired and before anyone has
  re-acquired the lock, it changes nothing that can be observed in the store from then on;
  issued after another owner has re-acquired the lock, it deletes that owner's lock.
\<close>

theorem release_unconditional:
  assumes "served w"
  shows "kv (snd (releaseLock u t w)) (lockKey u) = None \<and>
         (k \<noteq> lockKey u \<longrightarrow> kv (snd (releaseLock u t w)) k = kv w k) \<and>
         (live (kv w) t (lockKey u) = None \<and> t \<le> t' \<longrightarrow>
            live (kv (snd (releaseLock u t w))) t' k' = live (kv w) t' k')"
proof -
  have "live ((kv w)(lockKey u := None)) t' k' = live (kv w) t' k'"
    if "live (kv w) t (lockKey u) = None" "t \<le> t'"
  proof (cases "k' = lockKey u")
    case True
    from that have "live (kv w) t' (lockKey u) = None"
      by (auto simp: live_def expired_def split: option.splits if_splits)
    with True show ?thesis by (simp add: live_def)
  next
    case False
    then show ?thesis by simp
  qed
  with assms show ?thesis
    by (simp add: releaseLock_def andThen_del return_def)
qed

theorem release_unconditional_witness:
  "served (snd (acquireLock ''123'' 0 world0))
   \<and> live (kv (snd (acquireLock ''123'' 0 world0))) 6000 (lockKey ''123'') = None
   \<and> kv (snd (releaseLock ''123'' 6000 (snd (acquireLock ''123'' 0 world0)))) (lockKey ''123'') = None
   \<and> kv (snd (releaseLock ''123'' 6000 (snd (acquireLock ''123'' 0 world0)))) (lockKey ''456'')
       = kv (snd (acquireLock ''123'' 0 world0)) (lockKey ''456'')
   \<and> live (kv (snd (releaseLock ''123'' 6000 (snd (acquireLock ''123'' 0 world0))))) 7000 (lockKey ''123'')
       = live (kv (snd (acquireLock ''123'' 0 world0))) 7000 (lockKey ''123'')"
proof -
  let ?w = "snd (acquireLock ''123'' 0 world0)"
  have h: "served ?w" by (simp add: wexec)
  have l: "live (kv ?w) 6000 (lockKey ''123'') = None" by (simp add: wexec)
  note ru = release_unconditional [OF h, where u = "''123''" and t = 6000 and k = "lockKey ''456''"
      and t' = 7000 and k' = "lockKey ''123''"]
  from ru have c1: "kv (snd (releaseLock ''123'' 6000 ?w)) (lockKey ''123'') = None" by (rule conjunct1)
  from ru [THEN conjunct2, THEN conjunct1]
  have c2: "kv (snd (releaseLock ''123'' 6000 ?w)) (lockKey ''456'') = kv ?w (lockKey ''456'')" by simp
  from ru [THEN conjunct2, THEN conjunct2] l
  have c3: "live (kv (snd (releaseLock ''123'' 6000 ?w))) 7000 (lockKey ''123'') = live (kv ?w) 7000 (lockKey ''123'')"
    by simp
  from h l c1 c2 c3 show ?thesis by (intro conjI)
qed

section \<open>The scheduler\<close>

text \<open>
  C8, as the specification states it, has the processor sleep \<open>max (1000 - elapsed) 0\<close>
  milliseconds whatever the stored timestamp. \<open>sleep\<close> is a \<open>setTimeout\<close>, whose
  delay ranges from 1 to 2147483647 ms. With the timestamp 3000005400 stored and the clock
  at 5400, the delay computed is 3000001000 ms, the timer runs for 1 ms and the task is
  invoked at 5401.
\<close>

theorem spacing_timer_counterexample:
  "invocations (run_schedule [(5400, 0, Deliver ''123''), (5400, 0, Resume), (5401, 0, Resume)]
      (sys0\<lparr>store := world0\<lparr>kv := [''lastExecution:123'' \<mapsto> (VInt 3000005400, None)]\<rparr>\<rparr>))
     = [(''123'', 5401)]
   \<and> max (1000 - (5400 - 3000005400)) 0 = (3000001000::int)
   \<and> (5401::int) < 5400 + 3000001000"
  by (simp add: wexec)

text \<open>
  C8, amended. Before a task is executed, the timestamp of the last execution of its work
  key is read. If there is none, the task is invoked at once. If there is one, then with
  \<open>elapsed = now - timestamp\<close> and a delay \<open>max (1000 - elapsed) 0\<close> of at most
  2147483647 ms: when the delay is 0 the task is invoked at once, otherwise the processor
  sleeps that many milliseconds, the task being invoked at the first resumption at or
  after \<open>now + max (1000 - elapsed) 0\<close> and not before.
\<close>

theorem spacing_wait:
  assumes "stage s r = Spacing u" and "served (store s)"
  shows "(live (kv (store s)) now (lastExecutionKey u) = None \<longrightarrow>
            invocations (step now r Resume s) = invocations s @ [(u, now)]) \<and>
         (live (kv (store s)) now (lastExecutionKey u) = Some (VInt ts, e) \<and>
          max (1000 - (now - ts)) 0 \<le> 2147483647 \<longrightarrow>
            (if max (1000 - (now - ts)) 0 = 0
             then invocations (step now r Resume s) = invocations s @ [(u, now)]
             else stage (step now r Resume s) r = Sleeping u (now + max (1000 - (now - ts)) 0) \<and>
                  invocations (step now r Resume s) = invocations s \<and>
                  invocations (step t' r Resume (step now r Resume s)) =
                     (if now + max (1000 - (now - ts)) 0 \<le> t'
                      then invocations s @ [(u, t')] else invocations s)))"
  using assms
  by (auto simp: step_def spacing_def redis_get_def spacing_delay_def sleep_def invoke_def Let_def max_def)

theorem spacing_wait_witness:
  "stage (step 0 0 (Deliver ''123'') sys0) 0 = Spacing ''123''
   \<and> served (store (step 0 0 (Deliver ''123'') sys0))
   \<and> live (kv (store (step 0 0 (Deliver ''123'') sys0))) 0 (lastExecutionKey ''123'') = None
   \<and> invocations (step 0 0 Resume (step 0 0 (Deliver ''123'') sys0))
       = invocations (step 0 0 (Deliver ''123'') sys0) @ [(''123'', 0)]
   \<and> stage (sys0\<lparr>store := world0\<lparr>kv := [''lastExecution:123'' \<mapsto> (VInt 5100, None)]\<rparr>,
                    stage := (\<lambda>r. Spacing ''123'')\<rparr>) 1 = Spacing ''123''
   \<and> served (store (sys0\<lparr>store := world0\<lparr>kv := [''lastExecution:123'' \<mapsto> (VInt 5100, None)]\<rparr>,
                    stage := (\<lambda>r. Spacing ''123'')\<rparr>))
   \<and> live (kv (store (sys0\<lparr>store := world0\<lparr>kv := [''lastExecution:123'' \<mapsto> (VInt 5100, None)]\<rparr>,
                    stage := (\<lambda>r. Spacing ''123'')\<rparr>))) 5400 (lastExecutionKey ''123'')
       = Some (VInt 5100, None)
   \<and> max (1000 - (5400 - 5100)) 0 \<le> (2147483647::int)
   \<and> stage (step 5400 1 Resume
               (sys0\<lparr>store := world0\<lparr>kv := [''lastExecution:123'' \<mapsto> (VInt 5100, None)]\<rparr>,
                    stage := (\<lambda>r. Spacing ''123'')\<rparr>)) 1 = Sleeping ''123'' 6100
   \<and> invocations (step 6100 1 Resume (step 5400 1 Resume
               (sys0\<lparr>store := world0\<lparr>kv := [''lastExecution:123'' \<mapsto> (VInt 5100, None)]\<rparr>,
                    stage := (\<lambda>r. Spacing ''123'')\<rparr>))) = [(''123'', 6100)]"
proof -
  let ?s = "step 0 0 (Deliver ''123'') sys0"
  let ?s2 = "sys0\<lparr>store := world0\<lparr>kv := [''lastExecution:123'' \<mapsto> (VInt 5100, None)]\<rparr>,
                    stage := (\<lambda>r. Spacing ''123'')\<rparr>"
  have a1: "stage ?s 0 = Spacing ''123''" by (simp add: wexec)
  have a2: "served (store ?s)" by (simp add: wexec)
  have a3: "live (kv (store ?s)) 0 (lastExecutionKey ''123'') = None" by (simp add: wexec)
  from spacing_wait [OF a1 a2, where now = 0, THEN conjunct1] a3
  have c1: "invocations (step 0 0 Resume ?s) = invocations ?s @ [(''123'', 0)]" by simp
  have b1: "stage ?s2 1 = Spacing ''123''" by simp
  have b2: "served (store ?s2)" by (simp add: wexec)
  have b3: "live (kv (store ?s2)) 5400 (lastExecutionKey ''123'') = Some (VInt 5100, None)"
    by (simp add: wexec)
  have b4: "max (1000 - (5400 - 5100)) 0 \<le> (2147483647::int)" by simp
  note sw = spacing_wait [OF b1 b2, where now = 5400 and ts = 5100 and e = None and t' = 6100,
      THEN conjunct2]
  from sw b3 have c2: "stage (step 5400 1 Resume ?s2) 1 = Sleeping ''123'' 6100" by simp
  from sw b3 have c3: "invocations (step 6100 1 Resume (step 5400 1 Resume ?s2)) = [(''123'', 6100)]"
    by (simp add: sys0_def)
  from a1 a2 a3 c1 b1 b2 b3 b4 c2 c3 show ?thesis by (intro conjI)
qed

text \<open>
  C5. The specification asks that a failing Task Executor releases the lock and reports
  the item as failed. The \<open>catch\<close> block of the processor only logs the error: for an
  item of key 123 whose task rejects at 10 ms, no \<open>DEL\<close> is issued and the lock stays
  until its lease ends at 5000 ms, no timestamp is written, and the processor's promise
  resolves, so the queue records the item as completed.
\<close>

theorem failure_swallowed:
  "live (kv (store (run_schedule [(0, 0, Deliver ''123''), (0, 0, Resume), (10, 0, TaskRejected)] sys0)))
      10 (lockKey ''123'') = Some (VLocked, Some 5000)
   \<and> map fst (log (store (run_schedule [(0, 0, Deliver ''123''), (0, 0, Resume), (10, 0, TaskRejected)] sys0)))
       = [SET_NX_EX (lockKey ''123'') VLocked 5, GET (lastExecutionKey ''123'')]
   \<and> finished (run_schedule [(0, 0, Deliver ''123''), (0, 0, Resume), (10, 0, TaskRejected)] sys0)
       = [(''123'', Completed)]
   \<and> invocations (run_schedule [(0, 0, Deliver ''123''), (0, 0, Resume), (10, 0, TaskRejected)] sys0)
       = [(''123'', 0)]"
  by (simp add: wexec)

text \<open>
  C2. The specification asks that no two executions of a work key are less than 1000 ms
  apart, for any number of replicas. With two replicas and four items of key 123: replica
  0 runs the first item from 0 to 5200 ms, beyond its 5-second lease; replica 1 obtains
  the expired lock at 5001, finishes the second item at 5100, takes the third item and
  sleeps until 6100; replica 0 finishes at 5200, writes its timestamp, deletes the lock
  that replica 1 now holds, takes the fourth item and sleeps until 6200. The task is
  invoked at 6100 and at 6200.
\<close>

theorem spacing_violated:
  "invocations (run_schedule
      [(0, 0, Deliver ''123''), (0, 0, Resume),
       (5001, 1, Deliver ''123''), (5001, 1, Resume),
       (5100, 1, TaskResolved), (5100, 1, Resume),
       (5100, 1, Deliver ''123''), (5100, 1, Resume),
       (5200, 0, TaskResolved), (5200, 0, Resume),
       (5200, 0, Deliver ''123''), (5200, 0, Resume),
       (6100, 1, Resume), (6200, 0, Resume)] sys0)
   = [(''123'', 0), (''123'', 5001), (''123'', 6100), (''123'', 6200)]
   \<and> (6200::int) - 6100 < 1000"
  by (simp add: wexec)


end
